theory Spec2Isabelle
  imports Main "HOL-Library.Word"
begin

unbundle bit_operations_syntax

section \<open>The framing protocol (protocol.py)\<close>

text \<open>
  A Python \<open>bytes\<close> or \<open>bytearray\<close> value is a list of 8-bit words. Every integer that
  protocol.py computes (byte values, lengths, the two running sums, the checksum) is
  non-negative and unbounded, so it is a \<open>nat\<close>; \<open>unat\<close> reads a byte as Python does
  when it iterates over or indexes a byte string.
\<close>

type_synonym byte = "8 word"
type_synonym bytes = "byte list"

datatype py_error = OverflowError | SerialException | Binascii_Error

definition FRAME_MAGIC :: bytes where
  "FRAME_MAGIC = [0xC0, 0x3E]"

definition HEADER_SIZE :: nat where
  "HEADER_SIZE = 4"

definition CHECKSUM_SIZE :: nat where
  "CHECKSUM_SIZE = 2"

text \<open>The body of the \<open>for b in data\<close> loop of \<open>fletcher16\<close>, on the pair of sums.\<close>

fun fletcher16_loop :: "nat \<Rightarrow> nat \<Rightarrow> bytes \<Rightarrow> nat \<times> nat" where
  "fletcher16_loop sum1 sum2 [] = (sum1, sum2)"
| "fletcher16_loop sum1 sum2 (b # data) =
     (let sum1 = (sum1 + unat b) mod 255;
          sum2 = (sum2 + sum1) mod 255
      in fletcher16_loop sum1 sum2 data)"

definition fletcher16 :: "bytes \<Rightarrow> nat" where
  "fletcher16 data =
     (case fletcher16_loop 0 0 data of (sum1, sum2) \<Rightarrow> push_bit 8 sum2 OR sum1)"

text \<open>
  \<open>n.to_bytes(2, "big")\<close> for a non-negative \<open>n\<close>: the two bytes, high first, and
  OverflowError when \<open>n\<close> does not fit 16 bits.
\<close>

definition to_bytes_2_big :: "nat \<Rightarrow> py_error + bytes" where
  "to_bytes_2_big n =
     (if n < 65536 then Inr [word_of_nat (n div 256), word_of_nat (n mod 256)]
      else Inl OverflowError)"

text \<open>
  \<open>encode_frame\<close>: the operands of the concatenation are evaluated left to right, so
  the conversion of the length is the first that can raise.
\<close>

definition encode_frame :: "bytes \<Rightarrow> py_error + bytes" where
  "encode_frame payload =
     (let len = length payload;
          checksum = fletcher16 payload
      in case to_bytes_2_big len of
           Inl e \<Rightarrow> Inl e
         | Inr len_bytes \<Rightarrow>
             (case to_bytes_2_big checksum of
                Inl e \<Rightarrow> Inl e
              | Inr checksum_bytes \<Rightarrow>
                  Inr (FRAME_MAGIC @ len_bytes @ payload @ checksum_bytes)))"

text \<open>
  \<open>bytearray.index(v)\<close>: the position of the first occurrence of \<open>v\<close>, \<open>None\<close> where
  Python raises ValueError.
\<close>

fun index_of :: "bytes \<Rightarrow> byte \<Rightarrow> nat option" where
  "index_of [] v = None"
| "index_of (x # xs) v = (if x = v then Some 0 else map_option Suc (index_of xs v))"

record FrameDecoder =
  buffer :: bytes

definition FrameDecoder_init :: FrameDecoder where
  "FrameDecoder_init = \<lparr>buffer = []\<rparr>"

text \<open>
  The \<open>while True\<close> loop of \<open>FrameDecoder.feed\<close>, on the buffer and the list of frames
  found so far; it returns both when the loop breaks. Every index the loop reads is below
  the length it has just checked, so no read of the source can raise.
\<close>

function feed_loop :: "bytes \<Rightarrow> bytes list \<Rightarrow> bytes list \<times> bytes" where
  "feed_loop buf frames =
     (case index_of buf (FRAME_MAGIC ! 0) of
        None \<Rightarrow> (frames, [])
      | Some start \<Rightarrow>
          (let buf = (if start > 0 then drop start buf else buf)
           in if length buf < 2 then (frames, buf)
              else if buf ! 1 \<noteq> FRAME_MAGIC ! 1 then feed_loop (drop 1 buf) frames
              else if length buf < HEADER_SIZE then (frames, buf)
              else
                (let len = push_bit 8 (unat (buf ! 2)) OR unat (buf ! 3);
                     frame_size = HEADER_SIZE + len + CHECKSUM_SIZE
                 in if length buf < frame_size then (frames, buf)
                    else
                      (let payload = take len (drop HEADER_SIZE buf);
                           received_checksum =
                             push_bit 8 (unat (buf ! (HEADER_SIZE + len)))
                               OR unat (buf ! (HEADER_SIZE + len + 1));
                           expected_checksum = fletcher16 payload;
                           frames = (if received_checksum = expected_checksum
                                     then frames @ [payload] else frames)
                       in feed_loop (drop frame_size buf) frames))))"
  by pat_completeness auto
termination
  by (relation "measure (\<lambda>(buf, frames). length buf)")
     (auto simp: HEADER_SIZE_def CHECKSUM_SIZE_def)

declare feed_loop.simps [simp del]

definition feed :: "FrameDecoder \<Rightarrow> bytes \<Rightarrow> bytes list \<times> FrameDecoder" where
  "feed dec data =
     (case feed_loop (buffer dec @ data) [] of
        (frames, buf) \<Rightarrow> (frames, dec\<lparr>buffer := buf\<rparr>))"

section \<open>The broker side (mqtt_handler.py)\<close>

text \<open>
  \<open>s.split(sep)\<close> for a separator of one character: the pieces between the
  separators, so that a string without separator gives one piece and an empty string the
  one empty piece. \<open>word\<close> collects the piece being read.
\<close>

fun split_loop :: "char \<Rightarrow> string \<Rightarrow> string \<Rightarrow> string list" where
  "split_loop sep word [] = [word]"
| "split_loop sep word (c # cs) =
     (if c = sep then word # split_loop sep [] cs else split_loop sep (word @ [c]) cs)"

definition str_split :: "string \<Rightarrow> char \<Rightarrow> string list" where
  "str_split s sep = split_loop sep [] s"

text \<open>
  \<open>base64.b64decode(s)\<close>, called as the handler calls it (no alternative alphabet,
  \<open>validate\<close> left at False), is the library's \<open>binascii.a2b_base64\<close> in its lenient
  mode. It reads the input byte by byte: a byte outside the alphabet is skipped; a data
  character is shifted into the current group of four, every character after the first
  completing one output byte; \<open>=\<close> counts as padding only when the group holds two
  characters or more, and ends the decoding as soon as the group and its padding make up
  four; an input that ends inside a group raises \<open>binascii.Error\<close>.

  \<open>table_a2b_base64\<close> is the value of an alphabet character (A-Z, a-z, 0-9, +, /),
  \<open>None\<close> for every other byte.
\<close>

definition table_a2b_base64 :: "byte \<Rightarrow> byte option" where
  "table_a2b_base64 c =
     (if 0x41 \<le> c \<and> c \<le> 0x5A then Some (c - 0x41)
      else if 0x61 \<le> c \<and> c \<le> 0x7A then Some (c - 0x61 + 26)
      else if 0x30 \<le> c \<and> c \<le> 0x39 then Some (c - 0x30 + 52)
      else if c = 0x2B then Some 62
      else if c = 0x2F then Some 63
      else None)"

fun a2b_base64_loop :: "bytes \<Rightarrow> nat \<Rightarrow> byte \<Rightarrow> nat \<Rightarrow> bytes \<Rightarrow> py_error + bytes" where
  "a2b_base64_loop [] quad_pos leftchar pads bin_data =
     (if quad_pos \<noteq> 0 then Inl Binascii_Error else Inr bin_data)"
| "a2b_base64_loop (this_ch # ascii_data) quad_pos leftchar pads bin_data =
     (if this_ch = 0x3D then
        (if 2 \<le> quad_pos then
           (if 4 \<le> quad_pos + (pads + 1) then Inr bin_data
            else a2b_base64_loop ascii_data quad_pos leftchar (pads + 1) bin_data)
         else a2b_base64_loop ascii_data quad_pos leftchar pads bin_data)
      else
        (case table_a2b_base64 this_ch of
           None \<Rightarrow> a2b_base64_loop ascii_data quad_pos leftchar pads bin_data
         | Some v \<Rightarrow>
             (if quad_pos = 0 then a2b_base64_loop ascii_data 1 v 0 bin_data
              else if quad_pos = 1 then
                a2b_base64_loop ascii_data 2 (v AND 0x0F) 0
                  (bin_data @ [push_bit 2 leftchar OR drop_bit 4 v])
              else if quad_pos = 2 then
                a2b_base64_loop ascii_data 3 (v AND 0x03) 0
                  (bin_data @ [push_bit 4 leftchar OR drop_bit 2 v])
              else
                a2b_base64_loop ascii_data 0 0 0
                  (bin_data @ [push_bit 6 leftchar OR v]))))"

definition b64decode :: "bytes \<Rightarrow> py_error + bytes" where
  "b64decode s = a2b_base64_loop s 0 0 0 []"

text \<open>
  What \<open>MqttHandler._handle_message\<close> does with one broker message, as the list of
  the calls it makes: a warning or a debug line of the logger, and the \<open>on_packet\<close>
  callback with the decoded payload (\<open>SerialHandler.write_packet\<close> in main.py). The
  handler reads \<open>self._mesh_id\<close>, the topic and the payload of the message. It catches
  every exception of the decoding, so each of its branches returns to the caller.
\<close>

datatype event = Log_warning | Log_debug | On_packet bytes

definition handle_message :: "string \<Rightarrow> string \<Rightarrow> bytes \<Rightarrow> event list" where
  "handle_message mesh_id topic payload =
     (let parts = str_split topic CHR ''/''
      in if length parts < 2 then []
         else
           (let source_mesh = last parts
            in if source_mesh = mesh_id then []
               else
                 (case b64decode payload of
                    Inl e \<Rightarrow> [Log_warning]
                  | Inr decoded \<Rightarrow> [Log_debug, On_packet decoded])))"

section \<open>The serial side (serial_handler.py)\<close>

text \<open>
  The fields of \<open>SerialHandler\<close> that its reconnection logic reads or writes: the port
  (\<open>None\<close>, or the port object with its \<open>is_open\<close> flag), the decoder and the current
  delay in seconds. Whether the device can be opened is decided outside the program, so
  \<open>serial_open\<close> takes it as its first argument; when the driver raises, the assignment
  to the port and the reset of the delay do not happen.
\<close>

definition RECONNECT_DELAY_MIN :: nat where
  "RECONNECT_DELAY_MIN = 1"

definition RECONNECT_DELAY_MAX :: nat where
  "RECONNECT_DELAY_MAX = 60"

record SerialHandler =
  port :: "bool option"
  decoder :: FrameDecoder
  reconnect_delay :: nat

definition SerialHandler_init :: SerialHandler where
  "SerialHandler_init =
     \<lparr>port = None, decoder = FrameDecoder_init, reconnect_delay = RECONNECT_DELAY_MIN\<rparr>"

definition serial_open :: "bool \<Rightarrow> SerialHandler \<Rightarrow> py_error + SerialHandler" where
  "serial_open available h =
     (if available
      then Inr (h\<lparr>port := Some True, reconnect_delay := RECONNECT_DELAY_MIN\<rparr>)
      else Inl SerialException)"

definition serial_close :: "SerialHandler \<Rightarrow> SerialHandler" where
  "serial_close h = h\<lparr>port := None\<rparr>"

text \<open>
  \<open>try_reconnect\<close> returns its boolean result, the number of seconds it has slept
  before the attempt, and the handler afterwards.
\<close>

definition try_reconnect :: "bool \<Rightarrow> SerialHandler \<Rightarrow> bool \<times> nat \<times> SerialHandler" where
  "try_reconnect available h =
     (let h = serial_close h;
          h = h\<lparr>decoder := FrameDecoder_init\<rparr>;
          slept = reconnect_delay h
      in case serial_open available h of
           Inr h' \<Rightarrow> (True, slept, h')
         | Inl e \<Rightarrow>
             (False, slept,
              h\<lparr>reconnect_delay := min (reconnect_delay h * 2) RECONNECT_DELAY_MAX\<rparr>))"

section \<open>Notions of the specification\<close>

text \<open>
  A run of consecutive \<open>feed\<close> calls on one decoder, one call per chunk: the payloads
  the calls return, in order, and the decoder after the last call.
\<close>

fun feed_calls :: "FrameDecoder \<Rightarrow> bytes list \<Rightarrow> bytes list \<times> FrameDecoder" where
  "feed_calls dec [] = ([], dec)"
| "feed_calls dec (chunk # chunks) =
     (case feed dec chunk of
        (frames, dec') \<Rightarrow>
          (case feed_calls dec' chunks of
             (later, dec'') \<Rightarrow> (frames @ later, dec'')))"

text \<open>The handler after \<open>n\<close> calls of \<open>try_reconnect\<close> in a row that all fail.\<close>

fun failed_reconnects :: "nat \<Rightarrow> SerialHandler \<Rightarrow> SerialHandler" where
  "failed_reconnects 0 h = h"
| "failed_reconnects (Suc n) h = failed_reconnects n (snd (snd (try_reconnect False h)))"

text \<open>
  The specification's description of the checksum: two running sums that start at 0, each
  input byte added to the first sum and the first sum added to the second, both modulo
  255, the result being the second sum shifted left by 8 bits or-ed with the first.
\<close>

definition fletcher16_step :: "nat \<times> nat \<Rightarrow> byte \<Rightarrow> nat \<times> nat" where
  "fletcher16_step sums b =
     ((fst sums + unat b) mod 255, (snd sums + (fst sums + unat b) mod 255) mod 255)"

definition fletcher16_reference :: "bytes \<Rightarrow> nat" where
  "fletcher16_reference data =
     push_bit 8 (snd (foldl fletcher16_step (0, 0) data))
       OR fst (foldl fletcher16_step (0, 0) data)"

text \<open>A byte sequence in which some 0xC0 is immediately followed by 0x3E.\<close>

fun has_magic :: "bytes \<Rightarrow> bool" where
  "has_magic (a # b # rest) = ((a = 0xC0 \<and> b = 0x3E) \<or> has_magic (b # rest))"
| "has_magic _ = False"

text \<open>
  A buffer that starts with a whole frame: the magic, the length field, and at least as
  many further bytes as the length field announces for payload and checksum. The front of
  the buffer is the only place where the decoder reads a frame.
\<close>

definition holds_complete_frame :: "bytes \<Rightarrow> bool" where
  "holds_complete_frame buf \<longleftrightarrow>
     HEADER_SIZE \<le> length buf \<and> take 2 buf = FRAME_MAGIC \<and>
     HEADER_SIZE + (push_bit 8 (unat (buf ! 2)) OR unat (buf ! 3)) + CHECKSUM_SIZE \<le> length buf"

text \<open>
  Well-formed base-64 text in the sense of RFC 4648: groups of four characters of the
  alphabet, the last group possibly ending in one or two \<open>=\<close>, and nothing else.
\<close>

definition base64_text :: "bytes \<Rightarrow> bool" where
  "base64_text s \<longleftrightarrow>
     length s mod 4 = 0
     \<and> list_all (\<lambda>c. table_a2b_base64 c \<noteq> None) (takeWhile (\<lambda>c. c \<noteq> 0x3D) s)
     \<and> dropWhile (\<lambda>c. c \<noteq> 0x3D) s \<in> {[], [0x3D], [0x3D, 0x3D]}"

section \<open>Auxiliary facts\<close>

subsection \<open>The checksum as arithmetic\<close>

text \<open>
  Below 256 the bits of the low byte and those of the shifted high byte do not overlap,
  so the or of the source is a sum. Both sums of \<open>fletcher16\<close> stay below 255, and the
  first one is the sum of all bytes modulo 255.
\<close>

lemma or_add: "b < 256 \<Longrightarrow> push_bit 8 (a::nat) OR b = a * 256 + b"
proof -
  assume b: "b < 256"
  have tb: "take_bit 8 b = b" using b by (simp add: take_bit_nat_eq_self)
  have "push_bit 8 a AND take_bit 8 b = 0"
    by (rule bit_eqI) (auto simp: bit_simps)
  then have "push_bit 8 a AND b = 0" by (simp only: tb)
  then have "push_bit 8 a + b = push_bit 8 a OR b"
    by (rule disjunctive_add_eq_or)
  then show ?thesis by (simp add: push_bit_eq_mult)
qed

lemma fletcher16_loop_bounds:
  "a < 255 \<Longrightarrow> b < 255 \<Longrightarrow>
     fst (fletcher16_loop a b data) < 255 \<and> snd (fletcher16_loop a b data) < 255"
  by (induction data arbitrary: a b) (simp_all add: Let_def)

lemma fletcher16_loop_fst:
  "a < 255 \<Longrightarrow> fst (fletcher16_loop a b data) = (a + sum_list (map unat data)) mod 255"
proof (induction data arbitrary: a b)
  case Nil
  then show ?case by simp
next
  case (Cons x data)
  have "fst (fletcher16_loop a b (x # data))
        = ((a + unat x) mod 255 + sum_list (map unat data)) mod 255"
    by (simp add: Let_def Cons.IH)
  also have "\<dots> = (a + sum_list (map unat (x # data))) mod 255"
    by (simp add: mod_add_left_eq add.assoc)
  finally show ?case .
qed

lemma fletcher16_eq:
  "fletcher16 data =
     snd (fletcher16_loop 0 0 data) * 256 + fst (fletcher16_loop 0 0 data)"
proof -
  have "fst (fletcher16_loop 0 0 data) < 256"
    using fletcher16_loop_bounds [of 0 0 data] by simp
  then show ?thesis
    by (simp add: fletcher16_def case_prod_beta or_add)
qed

lemma fletcher16_less: "fletcher16 data < 65536"
  using fletcher16_loop_bounds [of 0 0 data] by (simp add: fletcher16_eq)

lemma fletcher16_low: "fletcher16 data mod 256 = sum_list (map unat data) mod 255"
proof -
  have "fst (fletcher16_loop 0 0 data) < 256"
    using fletcher16_loop_bounds [of 0 0 data] by simp
  then show ?thesis
    by (simp add: fletcher16_eq fletcher16_loop_fst)
qed

subsection \<open>One iteration of the decoder loop\<close>

text \<open>
  The loop first drops what precedes the first 0xC0; what it does next depends on the
  bytes behind that 0xC0 only. Each of the following equations is one path through the
  body of the loop.
\<close>

lemma index_of_None_iff: "index_of xs v = None \<longleftrightarrow> v \<notin> set xs"
  by (induction xs) auto

lemma index_of_Some_drop:
  "index_of xs v = Some i \<Longrightarrow>
     (if 0 < i then drop i xs else xs) = dropWhile (\<lambda>x. x \<noteq> v) xs"
  by (induction xs arbitrary: i) (auto split: if_splits)

lemma feed_loop_absent: "0xC0 \<notin> set buf \<Longrightarrow> feed_loop buf frames = (frames, [])"
  by (subst feed_loop.simps) (simp add: FRAME_MAGIC_def index_of_None_iff [THEN iffD2])

lemma feed_loop_skip:
  "feed_loop buf frames = feed_loop (dropWhile (\<lambda>x. x \<noteq> 0xC0) buf) frames"
proof (cases "index_of buf 0xC0")
  case None
  then have a: "0xC0 \<notin> set buf" by (simp add: index_of_None_iff)
  then have d: "dropWhile (\<lambda>x. x \<noteq> 0xC0) buf = []" by auto
  show ?thesis unfolding d using a by (simp add: feed_loop_absent)
next
  case (Some i)
  let ?b = "dropWhile (\<lambda>x. x \<noteq> 0xC0) buf"
  have b: "(if 0 < i then drop i buf else buf) = ?b"
    using Some by (rule index_of_Some_drop)
  have "0xC0 \<in> set buf" using Some index_of_None_iff [of buf "0xC0"] by auto
  then have "?b \<noteq> []" by (simp add: dropWhile_eq_Nil_conv)
  then obtain t where t: "?b = 0xC0 # t"
    using hd_dropWhile [of "\<lambda>x. x \<noteq> 0xC0" buf] by (cases ?b) auto
  have i0: "index_of ?b 0xC0 = Some 0" by (simp add: t)
  show ?thesis
    by (subst feed_loop.simps, subst (2) feed_loop.simps)
       (simp only: FRAME_MAGIC_def nth_Cons_0 Some i0 option.case b if_False less_irrefl)
qed

lemma feed_loop_lone: "feed_loop [0xC0] frames = (frames, [0xC0])"
  by (subst feed_loop.simps) (simp add: FRAME_MAGIC_def)

lemma feed_loop_false_start:
  "b \<noteq> 0x3E \<Longrightarrow> feed_loop (0xC0 # b # rest) frames = feed_loop (b # rest) frames"
  by (subst feed_loop.simps) (simp add: FRAME_MAGIC_def)

lemma feed_loop_short_header:
  "length rest < 2 \<Longrightarrow>
     feed_loop (0xC0 # 0x3E # rest) frames = (frames, 0xC0 # 0x3E # rest)"
  by (subst feed_loop.simps) (simp add: FRAME_MAGIC_def HEADER_SIZE_def)

lemma be16_bytes: "push_bit 8 (unat (hi :: byte)) OR unat (lo :: byte) = unat hi * 256 + unat lo"
proof -
  have "unat lo < 256" using unsigned_less [of lo] by simp
  then show ?thesis by (rule or_add)
qed

lemma feed_loop_incomplete:
  "length rest < unat hi * 256 + unat lo + 2 \<Longrightarrow>
     feed_loop (0xC0 # 0x3E # hi # lo # rest) frames = (frames, 0xC0 # 0x3E # hi # lo # rest)"
  by (subst feed_loop.simps)
     (simp add: FRAME_MAGIC_def HEADER_SIZE_def CHECKSUM_SIZE_def Let_def be16_bytes)

lemma drop_header: "drop (6 + n) (a # b # c # d # rest) = drop (Suc (Suc n)) rest"
  by (simp add: numeral_eq_Suc)

lemma feed_loop_complete:
  "len = unat hi * 256 + unat lo \<Longrightarrow> len + 2 \<le> length rest \<Longrightarrow>
     feed_loop (0xC0 # 0x3E # hi # lo # rest) frames =
       feed_loop (drop (len + 2) rest)
         (if unat (rest ! len) * 256 + unat (rest ! (len + 1)) = fletcher16 (take len rest)
          then frames @ [take len rest] else frames)"
  by (subst feed_loop.simps)
     (simp add: FRAME_MAGIC_def HEADER_SIZE_def CHECKSUM_SIZE_def Let_def be16_bytes drop_header)

lemma feed_loop_junk:
  "0xC0 \<notin> set junk \<Longrightarrow> feed_loop (junk @ buf) frames = feed_loop buf frames"
proof -
  assume "0xC0 \<notin> set junk"
  then have "dropWhile (\<lambda>x. x \<noteq> 0xC0) (junk @ buf) = dropWhile (\<lambda>x. x \<noteq> 0xC0) buf"
    by (intro dropWhile_append2) auto
  then show ?thesis
    using feed_loop_skip [of "junk @ buf" frames] feed_loop_skip [of buf frames] by simp
qed

text \<open>
  Induction along the iterations of the loop, one case for each path through its body.
\<close>

lemma feed_loop_induct [case_names absent junk lone false_start short_header incomplete complete]:
  assumes absent: "\<And>buf. 0xC0 \<notin> set buf \<Longrightarrow> P buf"
    and junk: "\<And>junk rest. junk \<noteq> [] \<Longrightarrow> 0xC0 \<notin> set junk \<Longrightarrow> P (0xC0 # rest)
                 \<Longrightarrow> P (junk @ 0xC0 # rest)"
    and lone: "P [0xC0]"
    and false_start: "\<And>b rest. b \<noteq> 0x3E \<Longrightarrow> P (b # rest) \<Longrightarrow> P (0xC0 # b # rest)"
    and short_header: "\<And>rest. length rest < 2 \<Longrightarrow> P (0xC0 # 0x3E # rest)"
    and incomplete: "\<And>hi lo rest. length rest < unat hi * 256 + unat lo + 2
                 \<Longrightarrow> P (0xC0 # 0x3E # hi # lo # rest)"
    and complete: "\<And>hi lo rest. unat hi * 256 + unat lo + 2 \<le> length rest
                 \<Longrightarrow> P (drop (unat hi * 256 + unat lo + 2) rest)
                 \<Longrightarrow> P (0xC0 # 0x3E # hi # lo # rest)"
  shows "P (buf :: bytes)"
proof (induction "length buf" arbitrary: buf rule: less_induct)
  case less
  show ?case
  proof (cases "0xC0 \<in> set buf")
    case False
    then show ?thesis by (rule absent)
  next
    case True
    then obtain junk rest where split: "buf = junk @ 0xC0 # rest" "0xC0 \<notin> set junk"
      by (auto dest: split_list_first)
    have head: "P (0xC0 # rest)" if smaller: "\<And>b. length b < length (0xC0 # rest) \<Longrightarrow> P b"
    proof (cases rest)
      case Nil
      then show ?thesis using lone by simp
    next
      case (Cons b r1)
      show ?thesis
      proof (cases "b = 0x3E")
        case False
        have "P (b # r1)" by (rule smaller) (simp add: Cons)
        with False show ?thesis unfolding Cons by (rule false_start)
      next
        case magic: True
        show ?thesis
        proof (cases "length r1 < 2")
          case True
          then show ?thesis unfolding Cons magic by (rule short_header)
        next
          case False
          then obtain hi lo r2 where r1: "r1 = hi # lo # r2"
            by (cases r1; cases "tl r1") auto
          show ?thesis
          proof (cases "length r2 < unat hi * 256 + unat lo + 2")
            case True
            then show ?thesis unfolding Cons magic r1 by (rule incomplete)
          next
            case False
            then have le: "unat hi * 256 + unat lo + 2 \<le> length r2" by simp
            have "P (drop (unat hi * 256 + unat lo + 2) r2)"
              by (rule smaller) (simp add: Cons r1)
            with le show ?thesis unfolding Cons magic r1 by (rule complete)
          qed
        qed
      qed
    qed
    show ?thesis
    proof (cases "junk = []")
      case True
      show ?thesis unfolding split True append_Nil
        by (rule head) (rule less, simp add: split True)
    next
      case False
      have "P (0xC0 # rest)"
        by (rule less) (use False in \<open>simp add: split\<close>)
      with False split(2) show ?thesis unfolding split(1) by (rule junk)
    qed
  qed
qed

subsection \<open>The loop on a longer input\<close>

text \<open>
  The frames found so far are only passed along, and the loop on \<open>xs @ ys\<close> is the loop
  on \<open>xs\<close> followed by the loop on what that one has kept and \<open>ys\<close>.
\<close>

lemma feed_loop_frames:
  "feed_loop buf frames = (frames @ fst (feed_loop buf []), snd (feed_loop buf []))"
proof (induction buf arbitrary: frames rule: feed_loop_induct)
  case (absent buf)
  then show ?case by (simp add: feed_loop_absent)
next
  case (junk junk rest)
  from junk.hyps junk.IH [of frames] show ?case by (simp add: feed_loop_junk)
next
  case lone
  show ?case by (simp add: feed_loop_lone)
next
  case (false_start b rest)
  from false_start.hyps false_start.IH [of frames] show ?case
    by (simp add: feed_loop_false_start)
next
  case (short_header rest)
  then show ?case by (simp add: feed_loop_short_header)
next
  case (incomplete hi lo rest)
  then show ?case by (simp add: feed_loop_incomplete)
next
  case (complete hi lo rest)
  let ?len = "unat hi * 256 + unat lo"
  let ?rest = "drop (?len + 2) rest"
  have step: "feed_loop (0xC0 # 0x3E # hi # lo # rest) fr =
       feed_loop ?rest
         (if unat (rest ! ?len) * 256 + unat (rest ! (?len + 1)) = fletcher16 (take ?len rest)
          then fr @ [take ?len rest] else fr)" for fr
    using complete.hyps by (intro feed_loop_complete) simp_all
  show ?case
  proof (cases "unat (rest ! ?len) * 256 + unat (rest ! (?len + 1)) = fletcher16 (take ?len rest)")
    case True
    have "feed_loop ?rest (frames @ [take ?len rest])
          = (frames @ fst (feed_loop ?rest [take ?len rest]), snd (feed_loop ?rest [take ?len rest]))"
      using complete.IH [of "frames @ [take ?len rest]"] complete.IH [of "[take ?len rest]"]
      by simp
    with True show ?thesis unfolding step by simp
  next
    case False
    then show ?thesis unfolding step using complete.IH [of frames] by simp
  qed
qed

lemma feed_loop_append:
  "feed_loop (xs @ ys) frames =
     (case feed_loop xs frames of (frames', buf') \<Rightarrow> feed_loop (buf' @ ys) frames')"
proof (induction xs arbitrary: frames rule: feed_loop_induct)
  case (absent buf)
  then show ?case by (simp add: feed_loop_absent feed_loop_junk)
next
  case (junk junk rest)
  from junk.hyps junk.IH [of frames] show ?case by (simp add: feed_loop_junk)
next
  case lone
  show ?case by (simp add: feed_loop_lone)
next
  case (false_start b rest)
  from false_start.hyps false_start.IH [of frames] show ?case
    by (simp add: feed_loop_false_start)
next
  case (short_header rest)
  then show ?case by (simp add: feed_loop_short_header)
next
  case (incomplete hi lo rest)
  then show ?case by (simp add: feed_loop_incomplete)
next
  case (complete hi lo rest)
  let ?len = "unat hi * 256 + unat lo"
  have l: "feed_loop (0xC0 # 0x3E # hi # lo # rest) fr =
       feed_loop (drop (?len + 2) rest)
         (if unat (rest ! ?len) * 256 + unat (rest ! (?len + 1)) = fletcher16 (take ?len rest)
          then fr @ [take ?len rest] else fr)" for fr
    using complete.hyps by (intro feed_loop_complete) simp_all
  have r: "feed_loop (0xC0 # 0x3E # hi # lo # rest @ ys) fr =
       feed_loop (drop (?len + 2) (rest @ ys))
         (if unat ((rest @ ys) ! ?len) * 256 + unat ((rest @ ys) ! (?len + 1))
               = fletcher16 (take ?len (rest @ ys))
          then fr @ [take ?len (rest @ ys)] else fr)" for fr
    using complete.hyps by (intro feed_loop_complete) simp_all
  have same: "(rest @ ys) ! ?len = rest ! ?len" "(rest @ ys) ! (?len + 1) = rest ! (?len + 1)"
    "take ?len (rest @ ys) = take ?len rest"
    "drop (?len + 2) (rest @ ys) = drop (?len + 2) rest @ ys"
    using complete.hyps by (simp_all add: nth_append)
  show ?case
    unfolding append_Cons l r same by (rule complete.IH)
qed

subsection \<open>Encoded frames\<close>

lemma foldl_fletcher16_step:
  "fletcher16_loop sum1 sum2 data = foldl fletcher16_step (sum1, sum2) data"
  by (induction data arbitrary: sum1 sum2) (simp_all add: fletcher16_step_def Let_def)

lemma to_bytes_2_big_Inr:
  "n < 65536 \<Longrightarrow>
     to_bytes_2_big n = Inr [word_of_nat (n div 256), word_of_nat (n mod 256)]"
  by (simp add: to_bytes_2_big_def)

lemma encode_frame_Inr:
  "length payload \<le> 65535 \<Longrightarrow>
     encode_frame payload =
       Inr (0xC0 # 0x3E # word_of_nat (length payload div 256)
              # word_of_nat (length payload mod 256)
              # payload @ [word_of_nat (fletcher16 payload div 256),
                          word_of_nat (fletcher16 payload mod 256)])"
  using fletcher16_less [of payload]
  by (simp add: encode_frame_def to_bytes_2_big_Inr FRAME_MAGIC_def)

lemma feed_loop_frame:
  assumes "length p \<le> 65535" and "encode_frame p = Inr f"
  shows "feed_loop (f @ rest) frames = feed_loop rest (frames @ [p])"
proof -
  let ?hi = "word_of_nat (length p div 256) :: byte"
  let ?lo = "word_of_nat (length p mod 256) :: byte"
  let ?ch = "word_of_nat (fletcher16 p div 256) :: byte"
  let ?cl = "word_of_nat (fletcher16 p mod 256) :: byte"
  let ?tail = "p @ ?ch # ?cl # rest"
  have f: "f @ rest = 0xC0 # 0x3E # ?hi # ?lo # ?tail"
    using assms by (simp add: encode_frame_Inr)
  have len: "length p = unat ?hi * 256 + unat ?lo"
    using assms(1) by (simp add: unat_of_nat)
  have ck: "unat ?ch * 256 + unat ?cl = fletcher16 p"
    using fletcher16_less [of p] by (simp add: unat_of_nat)
  have "feed_loop (0xC0 # 0x3E # ?hi # ?lo # ?tail) frames =
       feed_loop (drop (length p + 2) ?tail)
         (if unat (?tail ! length p) * 256 + unat (?tail ! (length p + 1))
               = fletcher16 (take (length p) ?tail)
          then frames @ [take (length p) ?tail] else frames)"
    by (rule feed_loop_complete [OF len]) simp
  also have "\<dots> = feed_loop rest (frames @ [p])"
    by (simp add: nth_append ck)
  finally show ?thesis by (simp only: f)
qed

lemma feed_loop_frames_concat:
  "\<forall>p \<in> set ps. length p \<le> 65535 \<Longrightarrow> map encode_frame ps = map Inr fs \<Longrightarrow>
     feed_loop (concat fs) frames = (frames @ ps, [])"
proof (induction ps arbitrary: fs frames)
  case Nil
  then show ?case by (simp add: feed_loop_absent)
next
  case (Cons p ps)
  from Cons.prems(2) obtain f fs' where fs: "fs = f # fs'" "encode_frame p = Inr f"
    "map encode_frame ps = map Inr fs'"
    by (cases fs) auto
  have "feed_loop (f @ concat fs') frames = feed_loop (concat fs') (frames @ [p])"
    using Cons.prems(1) fs(2) by (intro feed_loop_frame) simp_all
  also have "\<dots> = ((frames @ [p]) @ ps, [])"
    using Cons.prems(1) fs(3) by (intro Cons.IH) simp_all
  finally show ?case by (simp add: fs(1))
qed

subsection \<open>Consecutive calls\<close>

lemma feed_append:
  "feed dec (xs @ ys) =
     (case feed dec xs of
        (frames, dec') \<Rightarrow>
          (case feed dec' ys of (later, dec'') \<Rightarrow> (frames @ later, dec'')))"
proof -
  obtain frames buf where a: "feed_loop (buffer dec @ xs) [] = (frames, buf)"
    by (cases "feed_loop (buffer dec @ xs) []")
  have "feed_loop ((buffer dec @ xs) @ ys) [] = feed_loop (buf @ ys) frames"
    by (simp only: feed_loop_append [of "buffer dec @ xs" ys "[]"] a prod.case)
  also have "\<dots> = (frames @ fst (feed_loop (buf @ ys) []), snd (feed_loop (buf @ ys) []))"
    by (rule feed_loop_frames)
  finally show ?thesis
    by (simp add: feed_def a case_prod_beta)
qed

lemma feed_calls_concat:
  "chunks \<noteq> [] \<Longrightarrow> feed_calls dec chunks = feed dec (concat chunks)"
proof (induction chunks arbitrary: dec rule: list_nonempty_induct)
  case (single chunk)
  show ?case by (simp add: case_prod_beta)
next
  case (cons chunk chunks)
  show ?case by (simp add: feed_append cons.IH)
qed

subsection \<open>The buffer at rest\<close>

lemma feed_loop_rest:
  "feed_loop buf frames = (frames', buf') \<Longrightarrow>
     (buf' = [] \<or> hd buf' = 0xC0) \<and> \<not> holds_complete_frame buf'
     \<and> feed_loop buf' [] = ([], buf')"
proof (induction buf arbitrary: frames rule: feed_loop_induct)
  case (absent buf)
  then show ?case
    by (simp add: feed_loop_absent holds_complete_frame_def HEADER_SIZE_def)
next
  case (junk junk rest)
  from junk.hyps junk.prems junk.IH [of frames] show ?case
    by (simp add: feed_loop_junk)
next
  case lone
  then show ?case
    by (auto simp: feed_loop_lone holds_complete_frame_def HEADER_SIZE_def FRAME_MAGIC_def)
next
  case (false_start b rest)
  from false_start.hyps false_start.prems false_start.IH [of frames] show ?case
    by (simp add: feed_loop_false_start)
next
  case (short_header rest)
  then show ?case
    by (auto simp: feed_loop_short_header holds_complete_frame_def HEADER_SIZE_def)
next
  case (incomplete hi lo rest)
  then show ?case
    by (auto simp: feed_loop_incomplete holds_complete_frame_def HEADER_SIZE_def
        CHECKSUM_SIZE_def be16_bytes)
next
  case (complete hi lo rest)
  let ?len = "unat hi * 256 + unat lo"
  have "feed_loop (0xC0 # 0x3E # hi # lo # rest) frames =
       feed_loop (drop (?len + 2) rest)
         (if unat (rest ! ?len) * 256 + unat (rest ! (?len + 1)) = fletcher16 (take ?len rest)
          then frames @ [take ?len rest] else frames)"
    using complete.hyps by (intro feed_loop_complete) simp_all
  with complete.prems show ?case
    using complete.IH by simp
qed

subsection \<open>Junk before a frame\<close>

lemma has_magic_Cons: "has_magic xs \<Longrightarrow> has_magic (x # xs)"
  by (cases xs) simp_all

lemma feed_loop_no_magic:
  "\<not> has_magic junk \<Longrightarrow>
     feed_loop (junk @ 0xC0 # rest) frames = feed_loop (0xC0 # rest) frames"
proof (induction junk)
  case Nil
  show ?case by simp
next
  case (Cons x junk)
  from Cons.prems have clean: "\<not> has_magic junk"
    using has_magic_Cons by blast
  show ?case
  proof (cases "x = 0xC0")
    case False
    then have "feed_loop ([x] @ junk @ 0xC0 # rest) frames = feed_loop (junk @ 0xC0 # rest) frames"
      by (intro feed_loop_junk) simp
    with clean show ?thesis by (simp add: Cons.IH)
  next
    case True
    obtain c t where next_byte: "junk @ 0xC0 # rest = c # t" "c \<noteq> 0x3E"
      using Cons.prems True by (cases junk) auto
    then have "feed_loop (0xC0 # junk @ 0xC0 # rest) frames = feed_loop (junk @ 0xC0 # rest) frames"
      by (simp add: feed_loop_false_start)
    with clean True show ?thesis by (simp add: Cons.IH)
  qed
qed

subsection \<open>A changed payload byte\<close>

lemma mod255_cancel:
  fixes s a b n :: nat
  assumes "n + a = s + b" and "n mod 255 = s mod 255"
  shows "b mod 255 = a mod 255"
proof -
  have "(s + b) mod 255 = (n mod 255 + a) mod 255"
    using assms(1) by (simp add: mod_add_left_eq)
  also have "\<dots> = (s + a) mod 255"
    by (simp add: assms(2) mod_add_left_eq)
  finally have "int ((s + b) mod 255) = int ((s + a) mod 255)"
    by simp
  then have "(int s + int b) mod 255 = (int s + int a) mod 255"
    by (simp add: zmod_int)
  then have "255 dvd (int s + int b) - (int s + int a)"
    by (simp only: mod_eq_dvd_iff)
  then have "255 dvd int b - int a"
    by simp
  then have "int b mod 255 = int a mod 255"
    by (simp only: mod_eq_dvd_iff)
  then have "int (b mod 255) = int (a mod 255)"
    by (simp add: zmod_int)
  then show ?thesis by simp
qed

lemma fletcher16_update:
  assumes "i < length p" and "unat b mod 255 \<noteq> unat (p ! i) mod 255"
  shows "fletcher16 (p[i := b]) \<noteq> fletcher16 p"
proof
  assume eq: "fletcher16 (p[i := b]) = fletcher16 p"
  let ?old = "sum_list (map unat p)" and ?new = "sum_list (map unat (p[i := b]))"
  have same: "?new mod 255 = ?old mod 255"
    using eq fletcher16_low [of p] fletcher16_low [of "p[i := b]"] by simp
  have "unat (p ! i) \<in> set (map unat p)"
    using assms(1) by simp
  then have le: "unat (p ! i) \<le> ?old"
    by (rule member_le_sum_list) simp
  have "?new = ?old + unat b - unat (p ! i)"
    using assms(1) by (simp add: map_update sum_list_update)
  with le have "?new + unat (p ! i) = ?old + unat b"
    by simp
  then have "unat b mod 255 = unat (p ! i) mod 255"
    using same by (rule mod255_cancel)
  with assms(2) show False by simp
qed

subsection \<open>The delay after failed attempts\<close>

lemma failed_reconnects_delay:
  "reconnect_delay h = RECONNECT_DELAY_MIN \<Longrightarrow>
     reconnect_delay (failed_reconnects n h) = min (2 ^ n) 60"
proof -
  have step: "reconnect_delay (snd (snd (try_reconnect False g)))
              = min (reconnect_delay g * 2) 60" for g
    by (simp add: try_reconnect_def serial_open_def serial_close_def RECONNECT_DELAY_MAX_def)
  have "reconnect_delay g = min (2 ^ k) 60 \<Longrightarrow>
        reconnect_delay (failed_reconnects n g) = min (2 ^ (k + n)) 60" for g k
  proof (induction n arbitrary: g k)
    case 0
    then show ?case by simp
  next
    case (Suc n)
    have "reconnect_delay (snd (snd (try_reconnect False g))) = min (2 ^ Suc k) 60"
      by (simp add: step Suc.prems)
    from Suc.IH [OF this] show ?case by simp
  qed
  from this [of h 0] show "reconnect_delay h = RECONNECT_DELAY_MIN \<Longrightarrow>
     reconnect_delay (failed_reconnects n h) = min (2 ^ n) 60"
    by (simp add: RECONNECT_DELAY_MIN_def)
qed

lemma try_reconnect_slept:
  "fst (snd (try_reconnect available h)) = reconnect_delay h"
  by (simp add: try_reconnect_def serial_open_def serial_close_def Let_def)

section \<open>The claims\<close>

text \<open>
  C1. For payloads \<open>p1, \<dots>, pk\<close> of at most 65535 bytes each, \<open>encode_frame\<close>
  succeeds on every one of them, and a fresh decoder that is fed the concatenation of the
  \<open>k\<close> frames in one \<open>feed\<close> call returns exactly the list of the payloads, in
  order; its buffer is empty afterwards. One payload is the case \<open>k = 1\<close>.
\<close>

theorem feed_encoded_frames:
  assumes "\<forall>p \<in> set ps. length p \<le> 65535"
  shows "\<exists>fs. map encode_frame ps = map Inr fs
           \<and> feed FrameDecoder_init (concat fs) = (ps, FrameDecoder_init)"
proof -
  let ?frame = "\<lambda>p. 0xC0 # 0x3E # word_of_nat (length p div 256)
              # word_of_nat (length p mod 256)
              # p @ [word_of_nat (fletcher16 p div 256), word_of_nat (fletcher16 p mod 256)]"
  have enc: "map encode_frame ps = map Inr (map ?frame ps)"
    using assms by (simp add: encode_frame_Inr)
  with assms have "feed_loop (concat (map ?frame ps)) [] = ([] @ ps, [])"
    by (rule feed_loop_frames_concat)
  then have "feed FrameDecoder_init (concat (map ?frame ps)) = (ps, FrameDecoder_init)"
    by (simp add: feed_def FrameDecoder_init_def)
  with enc show ?thesis by blast
qed

text \<open>The statement of C1 at two payloads, one of them empty.\<close>

theorem feed_encoded_frames_witness:
  "length [1, 2, 3 :: byte] \<le> 65535 \<and> length ([] :: bytes) \<le> 65535
   \<and> (\<exists>fs. map encode_frame [[1, 2, 3], []] = map Inr fs
           \<and> feed FrameDecoder_init (concat fs) = ([[1, 2, 3], []], FrameDecoder_init))"
  using feed_encoded_frames [of "[[1, 2, 3], []]"] by simp

text \<open>
  C2. \<open>fletcher16\<close> is the checksum the specification describes. On the empty input
  it is 0. Both sums are reduced modulo 255 and not modulo 256: either byte of the result
  is below 255, and the single input byte 0xFF gives 0, where sums modulo 256 would give
  0xFFFF.
\<close>

theorem fletcher16_matches_reference:
  "fletcher16 data = fletcher16_reference data
   \<and> fletcher16 [] = 0
   \<and> fletcher16 data mod 256 < 255 \<and> fletcher16 data div 256 < 255
   \<and> fletcher16 [0xFF] = 0"
proof -
  have ref: "fletcher16 data = fletcher16_reference data"
    by (simp add: fletcher16_def fletcher16_reference_def foldl_fletcher16_step case_prod_beta)
  have empty: "fletcher16 [] = 0"
    by (simp add: fletcher16_def)
  have sums: "fst (fletcher16_loop 0 0 data) < 255" "snd (fletcher16_loop 0 0 data) < 255"
    using fletcher16_loop_bounds [of 0 0 data] by simp_all
  then have bounds: "fletcher16 data mod 256 < 255" "fletcher16 data div 256 < 255"
    by (simp_all add: fletcher16_eq)
  have ff: "fletcher16 [0xFF] = 0"
    by (simp add: fletcher16_def)
  from ref empty bounds ff show ?thesis by simp
qed

text \<open>
  C3. Feeding a byte sequence to a fresh decoder one byte per \<open>feed\<close> call returns, over
  all the calls, the payloads that one \<open>feed\<close> call with the whole sequence returns, and
  leaves the decoder in the same state.
\<close>

theorem feed_granularity_independent:
  "feed_calls FrameDecoder_init (map (\<lambda>b. [b]) s) = feed FrameDecoder_init s"
proof (cases s)
  case Nil
  then show ?thesis
    by (simp add: feed_def FrameDecoder_init_def feed_loop_absent)
next
  case (Cons b rest)
  then have "map (\<lambda>b. [b]) s \<noteq> []" by simp
  then have "feed_calls FrameDecoder_init (map (\<lambda>b. [b]) s)
             = feed FrameDecoder_init (concat (map (\<lambda>b. [b]) s))"
    by (rule feed_calls_concat)
  also have "concat (map (\<lambda>b. [b]) s) = s"
    by (induction s) simp_all
  finally show ?thesis .
qed

text \<open>
  C4, as amended. Take the frame of a payload \<open>p\<close> and replace the payload byte at
  index \<open>i\<close> by a byte \<open>b\<close> that differs from it modulo 255, that is, by any other
  byte except 0xFF for 0x00 and 0x00 for 0xFF; the stored checksum stays. Fed to a fresh
  decoder together with the frame of a payload \<open>q\<close> right behind it, the corrupted
  frame yields no payload, and the call returns \<open>q\<close> alone.
\<close>

theorem corrupted_frame_dropped:
  assumes "length p \<le> 65535" and "length q \<le> 65535"
    and "i < length p" and "unat b mod 255 \<noteq> unat (p ! i) mod 255"
  shows "\<exists>f g. encode_frame p = Inr f \<and> encode_frame q = Inr g
           \<and> feed FrameDecoder_init (f[HEADER_SIZE + i := b] @ g) = ([q], FrameDecoder_init)"
proof -
  let ?hi = "word_of_nat (length p div 256) :: byte"
  let ?lo = "word_of_nat (length p mod 256) :: byte"
  let ?ch = "word_of_nat (fletcher16 p div 256) :: byte"
  let ?cl = "word_of_nat (fletcher16 p mod 256) :: byte"
  let ?f = "0xC0 # 0x3E # ?hi # ?lo # p @ [?ch, ?cl]"
  obtain g where g: "encode_frame q = Inr g"
    using assms(2) encode_frame_Inr by blast
  let ?tail = "p[i := b] @ ?ch # ?cl # g"
  have f: "encode_frame p = Inr ?f"
    using assms(1) by (rule encode_frame_Inr)
  have idx: "HEADER_SIZE + i = Suc (Suc (Suc (Suc i)))"
    by (simp add: HEADER_SIZE_def)
  have upd: "?f[HEADER_SIZE + i := b] @ g = 0xC0 # 0x3E # ?hi # ?lo # ?tail"
    using assms(3) by (simp add: idx list_update_append)
  have len: "length p = unat ?hi * 256 + unat ?lo"
    using assms(1) by (simp add: unat_of_nat)
  have ck: "unat ?ch * 256 + unat ?cl = fletcher16 p"
    using fletcher16_less [of p] by (simp add: unat_of_nat)
  have bad: "fletcher16 p \<noteq> fletcher16 (p[i := b])"
    using fletcher16_update [OF assms(3,4)] by simp
  have "feed_loop (0xC0 # 0x3E # ?hi # ?lo # ?tail) [] =
       feed_loop (drop (length p + 2) ?tail)
         (if unat (?tail ! length p) * 256 + unat (?tail ! (length p + 1))
               = fletcher16 (take (length p) ?tail)
          then [] @ [take (length p) ?tail] else [])"
    by (rule feed_loop_complete [OF len]) simp
  also have "\<dots> = feed_loop (g @ []) []"
    using bad by (simp add: nth_append ck)
  also have "\<dots> = feed_loop [] ([] @ [q])"
    using assms(2) g by (rule feed_loop_frame)
  finally have "feed FrameDecoder_init (0xC0 # 0x3E # ?hi # ?lo # ?tail)
                = ([q], FrameDecoder_init)"
    by (simp add: feed_def FrameDecoder_init_def feed_loop_absent)
  then have "feed FrameDecoder_init (?f[HEADER_SIZE + i := b] @ g) = ([q], FrameDecoder_init)"
    by (simp only: upd)
  with f g show ?thesis by blast
qed

text \<open>The amended C4 for the payload 01 02 03 whose middle byte becomes 0xC0.\<close>

theorem corrupted_frame_dropped_witness:
  "length [0x01, 0x02, 0x03 :: byte] \<le> 65535 \<and> length [0x07 :: byte] \<le> 65535
   \<and> 1 < length [0x01, 0x02, 0x03 :: byte]
   \<and> unat (0xC0 :: byte) mod 255 \<noteq> unat ([0x01, 0x02, 0x03 :: byte] ! 1) mod 255
   \<and> (\<exists>f g. encode_frame [0x01, 0x02, 0x03] = Inr f \<and> encode_frame [0x07] = Inr g
           \<and> feed FrameDecoder_init (f[HEADER_SIZE + 1 := 0xC0] @ g)
               = ([[0x07]], FrameDecoder_init))"
  using corrupted_frame_dropped [of "[0x01, 0x02, 0x03]" "[0x07]" 1 "0xC0"]
  by simp

text \<open>
  C4 as stated fails: the frame of the one-byte payload 00 carries the checksum 0000, and
  so does the payload FF, since 255 is 0 modulo 255. With that payload byte changed from
  00 to FF the decoder accepts the frame and returns the changed payload.
\<close>

theorem corrupted_frame_accepted:
  "encode_frame [0x00] = Inr [0xC0, 0x3E, 0x00, 0x01, 0x00, 0x00, 0x00]
   \<and> encode_frame [0x07] = Inr [0xC0, 0x3E, 0x00, 0x01, 0x07, 0x07, 0x07]
   \<and> [0xC0, 0x3E, 0x00, 0x01, 0x00, 0x00, 0x00 :: byte][HEADER_SIZE + 0 := 0xFF]
       = [0xC0, 0x3E, 0x00, 0x01, 0xFF, 0x00, 0x00]
   \<and> feed FrameDecoder_init
        ([0xC0, 0x3E, 0x00, 0x01, 0xFF, 0x00, 0x00] @ [0xC0, 0x3E, 0x00, 0x01, 0x07, 0x07, 0x07])
       = ([[0xFF], [0x07]], FrameDecoder_init)"
proof -
  have a: "encode_frame [0x00] = Inr [0xC0, 0x3E, 0x00, 0x01, 0x00, 0x00, 0x00]"
    by (simp add: encode_frame_def to_bytes_2_big_def fletcher16_def FRAME_MAGIC_def)
  have b: "encode_frame [0x07] = Inr [0xC0, 0x3E, 0x00, 0x01, 0x07, 0x07, 0x07]"
    by (simp add: encode_frame_def to_bytes_2_big_def fletcher16_def FRAME_MAGIC_def)
  have c: "[0xC0, 0x3E, 0x00, 0x01, 0x00, 0x00, 0x00 :: byte][HEADER_SIZE + 0 := 0xFF]
       = [0xC0, 0x3E, 0x00, 0x01, 0xFF, 0x00, 0x00]"
    by (simp add: HEADER_SIZE_def)
  have "feed_loop (0xC0 # 0x3E # 0x00 # 0x01 # [0xFF, 0x00, 0x00, 0xC0, 0x3E, 0x00, 0x01, 0x07, 0x07, 0x07]) []
        = feed_loop [0xC0, 0x3E, 0x00, 0x01, 0x07, 0x07, 0x07] [[0xFF]]"
    by (subst feed_loop_complete [where len = 1]) (simp_all add: fletcher16_def)
  also have "\<dots> = feed_loop [] [[0xFF], [0x07]]"
    by (subst feed_loop_complete [where len = 1]) (simp_all add: fletcher16_def)
  finally have d: "feed FrameDecoder_init
        ([0xC0, 0x3E, 0x00, 0x01, 0xFF, 0x00, 0x00] @ [0xC0, 0x3E, 0x00, 0x01, 0x07, 0x07, 0x07])
       = ([[0xFF], [0x07]], FrameDecoder_init)"
    by (simp add: feed_def FrameDecoder_init_def feed_loop_absent)
  from a b c d show ?thesis by blast
qed

text \<open>
  C5. When the buffer starts with 0xC0 and the next byte is not 0x3E, the loop goes on
  with the buffer without that first byte, and with the frames found so far. Hence, for
  junk in which no 0xC0 is immediately followed by 0x3E and a payload \<open>p\<close> of at most
  65535 bytes, a fresh decoder that is fed the junk followed by the frame of \<open>p\<close>
  returns \<open>p\<close>.
\<close>

theorem resynchronisation:
  "(b \<noteq> 0x3E \<longrightarrow> feed_loop (0xC0 # b # rest) frames = feed_loop (b # rest) frames)
   \<and> (\<not> has_magic junk \<and> length p \<le> 65535 \<longrightarrow>
        (\<exists>f. encode_frame p = Inr f
              \<and> feed FrameDecoder_init (junk @ f) = ([p], FrameDecoder_init)))"
proof (intro conjI impI)
  assume "b \<noteq> 0x3E"
  then show "feed_loop (0xC0 # b # rest) frames = feed_loop (b # rest) frames"
    by (rule feed_loop_false_start)
next
  assume a: "\<not> has_magic junk \<and> length p \<le> 65535"
  let ?tail = "word_of_nat (length p div 256) # word_of_nat (length p mod 256)
              # p @ [word_of_nat (fletcher16 p div 256), word_of_nat (fletcher16 p mod 256)]"
  have enc: "encode_frame p = Inr (0xC0 # 0x3E # ?tail)"
    using a by (simp add: encode_frame_Inr)
  have "feed_loop (junk @ 0xC0 # 0x3E # ?tail) [] = feed_loop (0xC0 # 0x3E # ?tail) []"
    using a by (intro feed_loop_no_magic) simp
  also have "\<dots> = feed_loop ((0xC0 # 0x3E # ?tail) @ []) []"
    by simp
  also have "\<dots> = feed_loop [] ([] @ [p])"
    using a enc by (intro feed_loop_frame) simp_all
  finally have "feed FrameDecoder_init (junk @ 0xC0 # 0x3E # ?tail) = ([p], FrameDecoder_init)"
    by (simp add: feed_def FrameDecoder_init_def feed_loop_absent)
  with enc show "\<exists>f. encode_frame p = Inr f
              \<and> feed FrameDecoder_init (junk @ f) = ([p], FrameDecoder_init)"
    by blast
qed

text \<open>
  C5 at junk that contains 0xC0 twice, the second time as its last byte, before a frame
  whose payload is the magic itself.
\<close>

theorem resynchronisation_witness:
  "(0xC0 :: byte) \<noteq> 0x3E
   \<and> feed_loop [0xC0, 0xC0, 0x3E] [] = feed_loop [0xC0, 0x3E] []
   \<and> \<not> has_magic [0x3E, 0xC0, 0x01, 0xC0] \<and> length [0xC0, 0x3E :: byte] \<le> 65535
   \<and> (\<exists>f. encode_frame [0xC0, 0x3E] = Inr f
            \<and> feed FrameDecoder_init ([0x3E, 0xC0, 0x01, 0xC0] @ f)
                = ([[0xC0, 0x3E]], FrameDecoder_init))"
  using resynchronisation [of "0xC0" "[0x3E]" "[]" "[0x3E, 0xC0, 0x01, 0xC0]" "[0xC0, 0x3E]"]
  by simp

text \<open>
  C6. When the last segment of the topic of a broker message is the local mesh identity,
  the handler returns without a call: it logs nothing and does not invoke \<open>on_packet\<close>.
\<close>

theorem self_suppression:
  "last (str_split topic CHR ''/'') = mesh_id \<Longrightarrow> handle_message mesh_id topic payload = []"
  by (simp add: handle_message_def Let_def)

text \<open>C6 for the identity \<open>home\<close> and the topic \<open>meshcore/home\<close>.\<close>

theorem self_suppression_witness:
  "last (str_split ''meshcore/home'' CHR ''/'') = ''home''
   \<and> handle_message ''home'' ''meshcore/home'' [0x51, 0x55, 0x4A, 0x44] = []"
proof -
  have h: "last (str_split ''meshcore/home'' CHR ''/'') = ''home''"
    by (simp add: str_split_def)
  from h self_suppression [OF h, of "[0x51, 0x55, 0x4A, 0x44]"] show ?thesis by simp
qed

text \<open>
  C7. Starting from a handler whose delay is the minimum, after \<open>n\<close> failed calls of
  \<open>try_reconnect\<close> in a row the next call sleeps \<open>min (2 ^ n) 60\<close> seconds, whatever
  its own outcome. A successful \<open>serial_open\<close>, and with it a successful
  \<open>try_reconnect\<close>, sets the delay to the minimum, which is 1 second.
\<close>

theorem reconnect_backoff:
  "reconnect_delay h = RECONNECT_DELAY_MIN \<Longrightarrow>
     fst (snd (try_reconnect available (failed_reconnects n h))) = min (2 ^ n) 60
     \<and> serial_open True g
         = Inr (g\<lparr>port := Some True, reconnect_delay := RECONNECT_DELAY_MIN\<rparr>)
     \<and> reconnect_delay (snd (snd (try_reconnect True g))) = RECONNECT_DELAY_MIN
     \<and> RECONNECT_DELAY_MIN = 1"
proof (intro conjI)
  assume "reconnect_delay h = RECONNECT_DELAY_MIN"
  then show "fst (snd (try_reconnect available (failed_reconnects n h))) = min (2 ^ n) 60"
    by (simp add: try_reconnect_slept failed_reconnects_delay)
next
  show "serial_open True g
         = Inr (g\<lparr>port := Some True, reconnect_delay := RECONNECT_DELAY_MIN\<rparr>)"
    by (simp add: serial_open_def)
next
  show "reconnect_delay (snd (snd (try_reconnect True g))) = RECONNECT_DELAY_MIN"
    by (simp add: try_reconnect_def serial_open_def serial_close_def Let_def)
next
  show "RECONNECT_DELAY_MIN = 1"
    by (simp add: RECONNECT_DELAY_MIN_def)
qed

text \<open>C7 from the initial handler: 8 seconds after three failures, 60 after seven, and 1
  again once the eighth attempt has succeeded.\<close>

theorem reconnect_backoff_witness:
  "reconnect_delay SerialHandler_init = RECONNECT_DELAY_MIN
   \<and> fst (snd (try_reconnect False (failed_reconnects 3 SerialHandler_init))) = 8
   \<and> fst (snd (try_reconnect False (failed_reconnects 7 SerialHandler_init))) = 60
   \<and> reconnect_delay (snd (snd (try_reconnect True (failed_reconnects 7 SerialHandler_init))))
       = 1"
proof -
  have h: "reconnect_delay SerialHandler_init = RECONNECT_DELAY_MIN"
    by (simp add: SerialHandler_init_def)
  from h reconnect_backoff [OF h, of False 3]
    reconnect_backoff [OF h, of False 7 "failed_reconnects 7 SerialHandler_init"]
  show ?thesis by simp
qed

text \<open>
  C8. For a payload of at most 65535 bytes \<open>encode_frame\<close> returns the magic, the
  length in two bytes, the payload, and the two bytes of \<open>fletcher16\<close> of the payload
  alone, high byte first (a function of the payload: the same input gives the same
  frame). For a longer payload it raises OverflowError.
\<close>

theorem encode_frame_total:
  "(length payload \<le> 65535 \<longrightarrow>
      encode_frame payload =
        Inr (FRAME_MAGIC
             @ [word_of_nat (length payload div 256), word_of_nat (length payload mod 256)]
             @ payload
             @ [word_of_nat (fletcher16 payload div 256),
                word_of_nat (fletcher16 payload mod 256)]))
   \<and> (65535 < length payload \<longrightarrow> encode_frame payload = Inl OverflowError)"
  by (simp add: encode_frame_Inr FRAME_MAGIC_def)
     (simp add: encode_frame_def to_bytes_2_big_def)

text \<open>C8 at a payload of three bytes and at one of 65536 bytes.\<close>

theorem encode_frame_total_witness:
  "length [1, 2, 3 :: byte] \<le> 65535
   \<and> encode_frame [1, 2, 3] = Inr [0xC0, 0x3E, 0x00, 0x03, 0x01, 0x02, 0x03, 0x0A, 0x06]
   \<and> 65535 < length (replicate 65536 (0 :: byte))
   \<and> encode_frame (replicate 65536 0) = Inl OverflowError"
  using encode_frame_total [of "[1, 2, 3]"] encode_frame_total [of "replicate 65536 0"]
  by (simp add: FRAME_MAGIC_def fletcher16_def)

text \<open>
  C9, as amended. When the topic of a broker message does not end in the local mesh
  identity and \<open>b64decode\<close> raises on its payload, the handler catches the exception and
  returns: it logs one warning (nothing at all when the topic has no second segment) and
  does not invoke \<open>on_packet\<close>.
\<close>

theorem undecodable_payload_dropped:
  "last (str_split topic CHR ''/'') \<noteq> mesh_id \<Longrightarrow> b64decode payload = Inl e \<Longrightarrow>
     handle_message mesh_id topic payload =
       (if length (str_split topic CHR ''/'') < 2 then [] else [Log_warning])"
  by (simp add: handle_message_def Let_def)

text \<open>
  The amended C9 for the payload \<open>QUJ\<close>, three data characters without padding, on
  which the decoder raises.
\<close>

theorem undecodable_payload_dropped_witness:
  "last (str_split ''meshcore/away'' CHR ''/'') \<noteq> ''home''
   \<and> b64decode [0x51, 0x55, 0x4A] = Inl Binascii_Error
   \<and> handle_message ''home'' ''meshcore/away'' [0x51, 0x55, 0x4A] = [Log_warning]"
proof -
  have a: "last (str_split ''meshcore/away'' CHR ''/'') \<noteq> ''home''"
    by (simp add: str_split_def)
  have b: "b64decode [0x51, 0x55, 0x4A] = Inl Binascii_Error"
    by (simp add: b64decode_def table_a2b_base64_def)
  have c: "\<not> length (str_split ''meshcore/away'' CHR ''/'') < 2"
    by (simp add: str_split_def)
  from a b c undecodable_payload_dropped [OF a b] show ?thesis by simp
qed

text \<open>
  C9 as stated fails: the payload \<open>QUJD!\<close> is not well-formed base-64 (five
  characters, the last outside the alphabet), yet the lenient decoder skips the \<open>!\<close>,
  returns the bytes \<open>ABC\<close>, and the handler passes them to \<open>on_packet\<close>.
\<close>

theorem malformed_payload_forwarded:
  "\<not> base64_text [0x51, 0x55, 0x4A, 0x44, 0x21]
   \<and> last (str_split ''meshcore/away'' CHR ''/'') \<noteq> ''home''
   \<and> handle_message ''home'' ''meshcore/away'' [0x51, 0x55, 0x4A, 0x44, 0x21]
       = [Log_debug, On_packet [0x41, 0x42, 0x43]]"
proof -
  have a: "\<not> base64_text [0x51, 0x55, 0x4A, 0x44, 0x21]"
    by (simp add: base64_text_def)
  have b: "str_split ''meshcore/away'' CHR ''/'' = [''meshcore'', ''away'']"
    by (simp add: str_split_def)
  have c: "b64decode [0x51, 0x55, 0x4A, 0x44, 0x21] = Inr [0x41, 0x42, 0x43]"
    by (simp add: b64decode_def table_a2b_base64_def)
  from a b c show ?thesis
    by (simp add: handle_message_def)
qed

text \<open>
  C10. After a \<open>feed\<close> call on a decoder in any state, the buffer is empty or starts
  with 0xC0, and it does not start with a whole frame: a further \<open>feed\<close> call without
  new bytes returns no payload and leaves the buffer as it is.
\<close>

theorem feed_leaves_no_frame:
  "case feed dec data of
     (frames, dec') \<Rightarrow>
       (buffer dec' = [] \<or> hd (buffer dec') = 0xC0)
       \<and> \<not> holds_complete_frame (buffer dec')
       \<and> feed dec' [] = ([], dec')"
proof -
  obtain frames buf where a: "feed_loop (buffer dec @ data) [] = (frames, buf)"
    by (cases "feed_loop (buffer dec @ data) []")
  from feed_loop_rest [OF a] show ?thesis
    by (simp add: feed_def a)
qed

end
